theory Spec2Isabelle
  imports Main
begin

section \<open>C strings, the output stream and the allocator\<close>

text \<open>
  A pointer into a character buffer is the list of the bytes from the pointer to the
  end of the buffer, so \<open>s++\<close> is the tail, \<open>s - str\<close> the difference of the lengths,
  and a read at the empty list is a read behind the buffer. That read, a read through
  a NULL pointer and a byte that a failed \<open>sscanf\<close> conversion leaves unwritten are
  undefined in C; the model stops there with an \<open>error\<close>.
\<close>

datatype error = ReadPastEnd | NullDeref | Indeterminate

abbreviation NUL :: char where
  "NUL \<equiv> CHR 0x00"

text \<open>
  The C string that a buffer holds: its bytes before the first terminator. \<open>strlen\<close>
  and \<open>strcmp\<close> of string.h read it; the end of the list counts as the terminator.
\<close>

definition c_str :: "string \<Rightarrow> string" where
  "c_str s = takeWhile (\<lambda>c. c \<noteq> NUL) s"

definition strlen :: "string \<Rightarrow> nat" where
  "strlen s = length (c_str s)"

fun strcmp :: "string \<Rightarrow> string \<Rightarrow> int" where
  "strcmp [] [] = 0"
| "strcmp [] (b # t) = (if b = NUL then 0 else - 1)"
| "strcmp (a # s) [] = (if a = NUL then 0 else 1)"
| "strcmp (a # s) (b # t) =
     (if a = NUL \<and> b = NUL then 0
      else if a = b then strcmp s t
      else if (of_char a :: nat) < of_char b then - 1 else 1)"

text \<open>\<open>isxdigit\<close> of ctype.h in the C locale, and the value of a hexadecimal digit.\<close>

definition isxdigit :: "char \<Rightarrow> bool" where
  "isxdigit c = (c \<in> set ''0123456789abcdefABCDEF'')"

definition isspace :: "char \<Rightarrow> bool" where
  "isspace c = (c \<in> {CHR '' '', CHR 0x09, CHR 0x0A, CHR 0x0B, CHR 0x0C, CHR 0x0D})"

definition hexval :: "char \<Rightarrow> nat" where
  "hexval c =
     (let n = (of_char c :: nat) in
      if 48 \<le> n \<and> n \<le> 57 then n - 48
      else if 97 \<le> n \<and> n \<le> 102 then n - 87
      else n - 55)"

text \<open>
  \<open>sscanf(s, "%2hhx", p)\<close>: the byte stored through \<open>p\<close>, or \<open>None\<close> when the
  conversion fails and nothing is stored. White space is skipped, then at most two
  characters are read: an optional sign and hexadecimal digits. The two characters
  \<open>0x\<close> are a prefix with no digit after it, which ISO C makes a matching failure.
\<close>

definition sscanf_2hhx :: "string \<Rightarrow> char option" where
  "sscanf_2hhx s =
     (case dropWhile isspace (c_str s) of
        [] \<Rightarrow> None
      | c # t \<Rightarrow>
          if isxdigit c then
            (case t of
               [] \<Rightarrow> Some (char_of (hexval c))
             | d # _ \<Rightarrow>
                 if isxdigit d then Some (char_of (16 * hexval c + hexval d))
                 else if c = CHR ''0'' \<and> (d = CHR ''x'' \<or> d = CHR ''X'') then None
                 else Some (char_of (hexval c)))
          else if c = CHR ''+'' \<or> c = CHR ''-'' then
            (case t of
               [] \<Rightarrow> None
             | d # _ \<Rightarrow>
                 if isxdigit d
                 then Some (char_of (if c = CHR ''-'' then 256 - hexval d else hexval d))
                 else None)
          else None)"

text \<open>The stream \<open>fp\<close> is the text written to it so far.\<close>

definition fputs :: "string \<Rightarrow> string \<Rightarrow> string" where
  "fputs s fp = fp @ s"

text \<open>
  The allocator: \<open>live\<close> holds the addresses of the blocks that are allocated and not
  yet freed, \<open>brk\<close> is the next fresh address. A pointer to a string is NULL or the
  address of its block together with the bytes written there before the terminator.
\<close>

type_synonym addr = nat

type_synonym ptr = "(addr \<times> string) option"

record heap =
  brk :: addr
  live :: "addr set"

definition mutt_mem_malloc :: "heap \<Rightarrow> addr \<times> heap" where
  "mutt_mem_malloc h = (brk h, h\<lparr>brk := Suc (brk h), live := insert (brk h) (live h)\<rparr>)"

definition mem_free :: "addr \<Rightarrow> heap \<Rightarrow> heap" where
  "mem_free a h = h\<lparr>live := live h - {a}\<rparr>"

definition FREE :: "ptr \<Rightarrow> heap \<Rightarrow> heap" where
  "FREE p h = (case p of None \<Rightarrow> h | Some (a, _) \<Rightarrow> mem_free a h)"

section \<open>The distinguished name\<close>

record DnArray =
  key :: ptr
  val :: ptr

text \<open>
  An array of \<open>DnArray\<close> is the list of its cells from the pointer on; the cell whose
  \<open>key\<close> is NULL ends it.
\<close>

definition sentinel :: DnArray where
  "sentinel = \<lparr>key = None, val = None\<rparr>"

section \<open>Printing\<close>

text \<open>
  \<open>print_utf8\<close> copies \<open>len\<close> bytes, converts them from UTF-8 to the configured
  character set and writes them. The conversion \<open>mutt_ch_convert_string\<close> is not part
  of the file; it is the parameter \<open>conv\<close>.
\<close>

definition print_utf8 :: "(string \<Rightarrow> string) \<Rightarrow> string \<Rightarrow> string \<Rightarrow> nat \<Rightarrow> string" where
  "print_utf8 conv fp buf len = fputs (conv (take len buf)) fp"

fun print_dn_part_loop ::
  "(string \<Rightarrow> string) \<Rightarrow> string \<Rightarrow> bool \<Rightarrow> DnArray list \<Rightarrow> string \<Rightarrow> error + (string \<times> bool)" where
  "print_dn_part_loop conv fp any [] ky = Inl ReadPastEnd"
| "print_dn_part_loop conv fp any (d # dn) ky =
     (case key d of
        None \<Rightarrow> Inr (fp, any)
      | Some (_, k) \<Rightarrow>
          if strcmp k ky = 0 then
            (case val d of
               None \<Rightarrow> Inl NullDeref
             | Some (_, v) \<Rightarrow>
                 print_dn_part_loop conv
                   (print_utf8 conv (if any then fputs '' + '' fp else fp) v (strlen v))
                   True dn ky)
          else print_dn_part_loop conv fp any dn ky)"

definition print_dn_part ::
  "(string \<Rightarrow> string) \<Rightarrow> string \<Rightarrow> DnArray list \<Rightarrow> string \<Rightarrow> error + (string \<times> bool)" where
  "print_dn_part conv fp dn ky = print_dn_part_loop conv fp False dn ky"

definition stdpart :: "string list" where
  "stdpart = [''CN'', ''OU'', ''O'', ''STREET'', ''L'', ''ST'', ''C'']"

text \<open>The first loop of \<open>print_dn_parts\<close>, over the entries of \<open>stdpart\<close> still to come.\<close>

fun print_std_parts ::
  "(string \<Rightarrow> string) \<Rightarrow> string \<Rightarrow> bool \<Rightarrow> DnArray list \<Rightarrow> string list \<Rightarrow> error + (string \<times> bool)" where
  "print_std_parts conv fp any dn [] = Inr (fp, any)"
| "print_std_parts conv fp any dn (p # ps) =
     (case print_dn_part conv (if any then fputs '', '' fp else fp) dn p of
        Inl e \<Rightarrow> Inl e
      | Inr (fp', any') \<Rightarrow> print_std_parts conv fp' any' dn ps)"

text \<open>The inner loop of the second loop: is the key one of \<open>stdpart\<close>?\<close>

definition is_stdpart :: "string \<Rightarrow> bool" where
  "is_stdpart k = list_ex (\<lambda>p. strcmp k p = 0) stdpart"

text \<open>The second loop, which prints the other parts; it returns the stream and \<open>any2\<close>.\<close>

fun print_other_parts ::
  "(string \<Rightarrow> string) \<Rightarrow> string \<Rightarrow> bool \<Rightarrow> bool \<Rightarrow> DnArray list \<Rightarrow> error + (string \<times> bool)" where
  "print_other_parts conv fp any any2 [] = Inl ReadPastEnd"
| "print_other_parts conv fp any any2 (d # dn) =
     (case key d of
        None \<Rightarrow> Inr (fp, any2)
      | Some (_, k) \<Rightarrow>
          if is_stdpart k then print_other_parts conv fp any any2 dn
          else
            (let fp1 = (if any then fputs '', '' fp else fp);
                 fp2 = (if \<not> any2 then fputs ''('' fp1 else fp1)
             in case print_dn_part conv fp2 (d # dn) k of
                  Inl e \<Rightarrow> Inl e
                | Inr (fp3, any') \<Rightarrow> print_other_parts conv fp3 any' True dn))"

definition print_dn_parts :: "(string \<Rightarrow> string) \<Rightarrow> string \<Rightarrow> DnArray list \<Rightarrow> error + string" where
  "print_dn_parts conv fp dn =
     (case print_std_parts conv fp False dn stdpart of
        Inl e \<Rightarrow> Inl e
      | Inr (fp1, any) \<Rightarrow>
          (case print_other_parts conv fp1 any False dn of
             Inl e \<Rightarrow> Inl e
           | Inr (fp2, any2) \<Rightarrow> Inr (if any2 then fputs '')'' fp2 else fp2)))"

section \<open>Parsing\<close>

subsection \<open>The scanning loops of \<open>parse_dn_part\<close>\<close>

text \<open>The attribute type: \<open>for (s = str + 1; (s[0] != '\0') && (s[0] != '='); s++)\<close>.\<close>

fun scan_type :: "string \<Rightarrow> error + string" where
  "scan_type [] = Inl ReadPastEnd"
| "scan_type (c # s) = (if c \<noteq> NUL \<and> c \<noteq> CHR ''='' then scan_type s else Inr (c # s))"

text \<open>
  The hexstring: \<open>for (s = str; isxdigit(*s); s++) s++;\<close>. The body and the step
  each advance \<open>s\<close>, so the test reads every second character only.
\<close>

fun scan_hex :: "string \<Rightarrow> error + string" where
  "scan_hex [] = Inl ReadPastEnd"
| "scan_hex [c] = (if isxdigit c then Inl ReadPastEnd else Inr [c])"
| "scan_hex (c # d # s) = (if isxdigit c then scan_hex s else Inr (c # d # s))"

text \<open>\<open>for (s1 = str; n; s1 += 2, n--) sscanf(s1, "%2hhx", p++);\<close> gives the bytes stored.\<close>

fun decode_hex :: "nat \<Rightarrow> string \<Rightarrow> error + string" where
  "decode_hex 0 s1 = Inr []"
| "decode_hex (Suc n) s1 =
     (case sscanf_2hhx s1 of
        None \<Rightarrow> Inl Indeterminate
      | Some b \<Rightarrow>
          (case decode_hex n (drop 2 s1) of
             Inl e \<Rightarrow> Inl e
           | Inr bs \<Rightarrow> Inr (b # bs)))"

text \<open>The characters that a backslash may precede, and those that end a value.\<close>

definition is_special :: "char \<Rightarrow> bool" where
  "is_special c =
     (c = CHR '','' \<or> c = CHR ''='' \<or> c = CHR ''+'' \<or> c = CHR ''<'' \<or> c = CHR ''>'' \<or>
      c = CHR ''#'' \<or> c = CHR '';'' \<or> c = CHR 0x5C \<or> c = CHR 0x22 \<or> c = CHR '' '')"

definition is_delim :: "char \<Rightarrow> bool" where
  "is_delim c =
     (c = CHR '','' \<or> c = CHR ''='' \<or> c = CHR ''+'' \<or> c = CHR ''<'' \<or> c = CHR ''>'' \<or>
      c = CHR ''#'' \<or> c = CHR '';'')"

text \<open>
  The first loop over a quoted string counts the bytes of the value: the result is
  \<open>None\<close> where the code returns NULL, and the count \<open>n\<close> otherwise.
\<close>

fun count_value :: "nat \<Rightarrow> string \<Rightarrow> error + nat option" where
  "count_value n [] = Inl ReadPastEnd"
| "count_value n (c # s) =
     (if c = NUL then Inr (Some n)
      else if c = CHR 0x5C then
        (case s of
           [] \<Rightarrow> Inl ReadPastEnd
         | d # s' \<Rightarrow>
             if is_special d then count_value (n + 1) s'
             else if isxdigit d then
               (case s' of
                  [] \<Rightarrow> Inl ReadPastEnd
                | e # s'' \<Rightarrow> if isxdigit e then count_value (n + 1) s'' else Inr None)
             else Inr None)
      else if c = CHR 0x22 then Inr None
      else if is_delim c then Inr (Some n)
      else count_value (n + 1) s)"

text \<open>The second loop copies \<open>n\<close> bytes; it returns them and the final \<open>s\<close>.\<close>

fun copy_value :: "nat \<Rightarrow> string \<Rightarrow> error + (string \<times> string)" where
  "copy_value 0 s = Inr ([], s)"
| "copy_value (Suc n) [] = Inl ReadPastEnd"
| "copy_value (Suc n) (c # s) =
     (if c = CHR 0x5C then
        (case s of
           [] \<Rightarrow> Inl ReadPastEnd
         | d # s' \<Rightarrow>
             if isxdigit d then
               (case sscanf_2hhx (d # s') of
                  None \<Rightarrow> Inl Indeterminate
                | Some b \<Rightarrow>
                    (case copy_value n (drop 1 s') of
                       Inl e \<Rightarrow> Inl e
                     | Inr (bs, r) \<Rightarrow> Inr (b # bs, r)))
             else
               (case copy_value n s' of
                  Inl e \<Rightarrow> Inl e
                | Inr (bs, r) \<Rightarrow> Inr (d # bs, r)))
      else
        (case copy_value n s of
           Inl e \<Rightarrow> Inl e
         | Inr (bs, r) \<Rightarrow> Inr (c # bs, r)))"

subsection \<open>\<open>parse_dn_part\<close>\<close>

text \<open>
  The result is the heap, the cell \<open>array\<close> as the call leaves it, and the pointer
  returned: \<open>None\<close> is NULL.
\<close>

definition parse_hexstring ::
  "heap \<Rightarrow> DnArray \<Rightarrow> string \<Rightarrow> error + (heap \<times> DnArray \<times> string option)" where
  "parse_hexstring h array str =
     (case scan_hex str of
        Inl e \<Rightarrow> Inl e
      | Inr s \<Rightarrow>
          (let n = length str - length s in
           if n = 0 \<or> odd n then Inr (h, array, None)
           else
             (let (p, h') = mutt_mem_malloc h in
              case decode_hex (n div 2) str of
                Inl e \<Rightarrow> Inl e
              | Inr bytes \<Rightarrow> Inr (h', array\<lparr>val := Some (p, bytes)\<rparr>, Some s))))"

definition parse_quoted ::
  "heap \<Rightarrow> DnArray \<Rightarrow> string \<Rightarrow> error + (heap \<times> DnArray \<times> string option)" where
  "parse_quoted h array str =
     (case count_value 0 str of
        Inl e \<Rightarrow> Inl e
      | Inr None \<Rightarrow> Inr (h, array, None)
      | Inr (Some n) \<Rightarrow>
          (let (p, h') = mutt_mem_malloc h in
           case copy_value n str of
             Inl e \<Rightarrow> Inl e
           | Inr (bytes, s) \<Rightarrow> Inr (h', array\<lparr>val := Some (p, bytes)\<rparr>, Some s)))"

definition parse_dn_part ::
  "heap \<Rightarrow> DnArray \<Rightarrow> string \<Rightarrow> error + (heap \<times> DnArray \<times> string option)" where
  "parse_dn_part h array str =
     (case scan_type (drop 1 str) of
        Inl e \<Rightarrow> Inl e
      | Inr [] \<Rightarrow> Inl ReadPastEnd
      | Inr (c # s') \<Rightarrow>
          if c = NUL then Inr (h, array, None)
          else
            (let n = length str - length (c # s') in
             if n = 0 then Inr (h, array, None)
             else
               (let (p, h') = mutt_mem_malloc h;
                    array' = array\<lparr>key := Some (p, take n str)\<rparr>
                in case s' of
                     [] \<Rightarrow> Inl ReadPastEnd
                   | x # str' \<Rightarrow>
                       if x = CHR ''#'' then parse_hexstring h' array' str'
                       else parse_quoted h' array' (x # str'))))"

subsection \<open>\<open>parse_dn\<close>\<close>

text \<open>\<open>while (str[0] == ' ') str++;\<close>\<close>

fun skip_spaces :: "string \<Rightarrow> error + string" where
  "skip_spaces [] = Inl ReadPastEnd"
| "skip_spaces (c # s) = (if c = CHR '' '' then skip_spaces s else Inr (c # s))"

text \<open>The code after the label \<open>failure\<close>: every cell filled so far, then the array.\<close>

fun free_cells :: "DnArray list \<Rightarrow> heap \<Rightarrow> heap" where
  "free_cells [] h = h"
| "free_cells (d # ds) h = free_cells ds (FREE (val d) (FREE (key d) h))"

definition failure :: "addr \<Rightarrow> DnArray list \<Rightarrow> heap \<Rightarrow> heap" where
  "failure array cells h = mem_free array (free_cells cells h)"

text \<open>
  The array grows by five cells when \<open>arrayidx >= arraysize\<close>: a new block, the cells
  copied, the old block freed. The result is the heap, the array and \<open>arraysize\<close>.
\<close>

definition grow :: "heap \<Rightarrow> addr \<Rightarrow> nat \<Rightarrow> nat \<Rightarrow> heap \<times> addr \<times> nat" where
  "grow h array arraysize arrayidx =
     (if arrayidx \<ge> arraysize then
        (let (a2, h') = mutt_mem_malloc h in (mem_free array h', a2, arraysize + 5))
      else (h, array, arraysize))"

text \<open>
  The loop \<open>while (*str)\<close>. \<open>cells\<close> are the cells \<open>array[0 .. arrayidx - 1]\<close>, so
  \<open>arrayidx\<close> is their number. The result is the heap and the pointer returned: NULL,
  or the address of the array with its cells, the closing one included.
\<close>

function parse_dn_loop ::
  "heap \<Rightarrow> addr \<Rightarrow> nat \<Rightarrow> DnArray list \<Rightarrow> string \<Rightarrow> error + (heap \<times> (addr \<times> DnArray list) option)" where
  "parse_dn_loop h array arraysize cells str =
     (case str of
        [] \<Rightarrow> Inl ReadPastEnd
      | c # _ \<Rightarrow>
          if c = NUL then Inr (h, Some (array, cells @ [sentinel]))
          else
            (case skip_spaces str of
               Inl e \<Rightarrow> Inl e
             | Inr [] \<Rightarrow> Inl ReadPastEnd
             | Inr (c1 # s1) \<Rightarrow>
                 if c1 = NUL then Inr (h, Some (array, cells @ [sentinel]))
                 else
                   (let (h1, array1, arraysize1) = grow h array arraysize (length cells) in
                    case parse_dn_part h1 sentinel (c1 # s1) of
                      Inl e \<Rightarrow> Inl e
                    | Inr (h2, cell, None) \<Rightarrow> Inr (failure array1 (cells @ [cell]) h2, None)
                    | Inr (h2, cell, Some s2) \<Rightarrow>
                        (case skip_spaces s2 of
                           Inl e \<Rightarrow> Inl e
                         | Inr [] \<Rightarrow> Inl ReadPastEnd
                         | Inr (c3 # s3) \<Rightarrow>
                             if c3 \<noteq> NUL \<and> c3 \<noteq> CHR '','' \<and> c3 \<noteq> CHR '';'' \<and> c3 \<noteq> CHR ''+''
                             then Inr (failure array1 (cells @ [cell]) h2, None)
                             else parse_dn_loop h2 array1 arraysize1 (cells @ [cell])
                                    (if c3 \<noteq> NUL then s3 else c3 # s3)))))"
  by pat_completeness auto

text \<open>
  Every scanning loop returns a pointer into the buffer it was given, and
  \<open>parse_dn_part\<close> returns one behind the first character: the loop of \<open>parse_dn\<close>
  ends.
\<close>

lemma skip_spaces_length: "skip_spaces s = Inr r \<Longrightarrow> length r \<le> length s"
  by (induction s) (auto split: if_splits)

lemma scan_type_length: "scan_type s = Inr r \<Longrightarrow> length r \<le> length s"
  by (induction s) (auto split: if_splits)

lemma scan_hex_length: "scan_hex s = Inr r \<Longrightarrow> length r \<le> length s"
  by (induction s rule: scan_hex.induct) (auto split: if_splits)

lemma copy_value_length: "copy_value n s = Inr (bs, r) \<Longrightarrow> length r \<le> length s"
proof (induction n s arbitrary: bs r rule: copy_value.induct)
  case (1 s)
  then show ?case by simp
next
  case (2 n)
  then show ?case by simp
next
  case (3 n c s)
  show ?case
  proof (cases "c = CHR 0x5C")
    case False
    with 3 show ?thesis
      by (fastforce split: sum.splits)
  next
    case True
    note bs = True
    show ?thesis
    proof (cases s)
      case Nil
      with 3 bs show ?thesis by simp
    next
      case (Cons d s')
      show ?thesis
      proof (cases "isxdigit d")
        case True
        with 3 bs Cons obtain b bs' where
          "sscanf_2hhx (d # s') = Some b" "copy_value n (drop 1 s') = Inr (bs', r)"
          by (auto split: option.splits sum.splits)
        with 3(1) [OF bs Cons True] have "length r \<le> length (drop 1 s')"
          by blast
        with Cons show ?thesis by simp
      next
        case False
        with 3 bs Cons obtain bs' where "copy_value n s' = Inr (bs', r)"
          by (auto split: sum.splits)
        with 3(2) [OF bs Cons False] have "length r \<le> length s'"
          by blast
        with Cons show ?thesis by simp
      qed
    qed
  qed
qed

lemma parse_dn_part_length:
  assumes "parse_dn_part h a str = Inr (h', cell, Some r)"
  shows "length r < length str"
proof (cases str)
  case Nil
  with assms show ?thesis
    by (simp add: parse_dn_part_def)
next
  case (Cons c0 t)
  from assms obtain c s' where st: "scan_type t = Inr (c # s')" and "c \<noteq> NUL"
    by (auto simp: parse_dn_part_def Cons split: sum.splits list.splits if_splits)
  from scan_type_length [OF st] have len: "length s' < length t"
    by simp
  from assms st \<open>c \<noteq> NUL\<close> len obtain x str' where s': "s' = x # str'"
    by (cases s') (auto simp: parse_dn_part_def Cons Let_def mutt_mem_malloc_def)
  show ?thesis
  proof (cases "x = CHR ''#''")
    case True
    with assms st \<open>c \<noteq> NUL\<close> len s' obtain hh aa where
      "parse_hexstring hh aa str' = Inr (h', cell, Some r)"
      by (auto simp: parse_dn_part_def Cons Let_def mutt_mem_malloc_def)
    then have "scan_hex str' = Inr r"
      by (auto simp: parse_hexstring_def Let_def mutt_mem_malloc_def
          split: sum.splits if_splits)
    from scan_hex_length [OF this] len s' show ?thesis
      by (simp add: Cons)
  next
    case False
    with assms st \<open>c \<noteq> NUL\<close> len s' obtain hh aa where
      "parse_quoted hh aa (x # str') = Inr (h', cell, Some r)"
      by (auto simp: parse_dn_part_def Cons Let_def mutt_mem_malloc_def)
    then obtain n bs where "copy_value n (x # str') = Inr (bs, r)"
      by (auto simp: parse_quoted_def Let_def mutt_mem_malloc_def
          split: sum.splits option.splits)
    from copy_value_length [OF this] len s' show ?thesis
      by (simp add: Cons)
  qed
qed

termination parse_dn_loop
proof (relation "measure (\<lambda>(h, array, arraysize, cells, str). length str)", goal_cases)
  case 1
  show ?case by simp
next
  case (2 h array arraysize cells str c t r c1 s1 g h1 ga array1 arraysize1 res h2 gb cell s2o s2 r' c3 s3)
  from 2 have "parse_dn_part h1 sentinel (c1 # s1) = Inr (h2, cell, Some s2)"
    by simp
  from parse_dn_part_length [OF this] have a: "length s2 < length (c1 # s1)" .
  from 2 have "skip_spaces s2 = Inr (c3 # s3)"
    by simp
  from skip_spaces_length [OF this] have b: "length (c3 # s3) \<le> length s2" .
  from 2 have "skip_spaces str = Inr (c1 # s1)"
    by simp
  from skip_spaces_length [OF this] have c: "length (c1 # s1) \<le> length str" .
  from a b c show ?case
    by auto
qed

definition parse_dn :: "heap \<Rightarrow> string \<Rightarrow> error + (heap \<times> (addr \<times> DnArray list) option)" where
  "parse_dn h str =
     (let arraysize = 7;
          (array, h') = mutt_mem_malloc h
      in parse_dn_loop h' array arraysize [] str)"

section \<open>Notions of the statements\<close>

text \<open>The heap with no block allocated, and a filled cell of the array.\<close>

definition heap0 :: heap where
  "heap0 = \<lparr>brk = 0, live = {}\<rparr>"

definition attribute :: "addr \<times> string \<Rightarrow> addr \<times> string \<Rightarrow> DnArray" where
  "attribute k v = \<lparr>key = Some k, val = Some v\<rparr>"

text \<open>
  The array of a list of attributes, each a key and a value with their addresses: the
  filled cells in order, then the closing cell.
\<close>

definition dn_array :: "((addr \<times> string) \<times> (addr \<times> string)) list \<Rightarrow> DnArray list" where
  "dn_array ps = map (\<lambda>(k, v). attribute k v) ps @ [sentinel]"

text \<open>The attributes whose key is none of \<open>stdpart\<close>, in the order of the array.\<close>

definition other_parts ::
  "((addr \<times> string) \<times> (addr \<times> string)) list \<Rightarrow> ((addr \<times> string) \<times> (addr \<times> string)) list" where
  "other_parts ps = filter (\<lambda>(k, v). \<not> is_stdpart (snd k)) ps"

text \<open>The text that \<open>print_utf8\<close> writes for the value \<open>v\<close> of a cell.\<close>

definition printed :: "(string \<Rightarrow> string) \<Rightarrow> string \<Rightarrow> string" where
  "printed conv v = conv (take (strlen v) v)"

text \<open>The texts that \<open>print_utf8\<close> writes for the values of the cells of an array.\<close>

definition printed_values :: "(string \<Rightarrow> string) \<Rightarrow> DnArray list \<Rightarrow> string list" where
  "printed_values conv dn =
     concat (map (\<lambda>d. case val d of None \<Rightarrow> [] | Some (a, v) \<Rightarrow> [printed conv v]) dn)"

text \<open>The texts \<open>xs\<close> with \<open>sep\<close> between each two of them.\<close>

fun join :: "string \<Rightarrow> string list \<Rightarrow> string" where
  "join sep [] = []"
| "join sep [x] = x"
| "join sep (x # y # ys) = x @ sep @ join sep (y # ys)"

text \<open>
  The attributes whose key is \<open>p\<close>, in the order of the array, and the text of their
  group: the values with \<open>" + "\<close> between them and \<open>", "\<close> behind, or nothing when
  there is no such attribute.
\<close>

definition part_values ::
  "((addr \<times> string) \<times> (addr \<times> string)) list \<Rightarrow> string \<Rightarrow> ((addr \<times> string) \<times> (addr \<times> string)) list" where
  "part_values ps p = filter (\<lambda>(k, v). strcmp (snd k) p = 0) ps"

definition std_group ::
  "(string \<Rightarrow> string) \<Rightarrow> ((addr \<times> string) \<times> (addr \<times> string)) list \<Rightarrow> string \<Rightarrow> string" where
  "std_group conv ps p =
     (if part_values ps p = [] then []
      else join '' + '' (map (\<lambda>(k, v). printed conv (snd v)) (part_values ps p)) @ '', '')"

text \<open>The byte that two hexadecimal digits encode.\<close>

definition hex_byte :: "char \<Rightarrow> char \<Rightarrow> char" where
  "hex_byte d e = char_of (16 * hexval d + hexval e)"

text \<open>
  The value of a quoted string as the specification words it: scanning character by
  character, a backslash before one of the reserved characters gives that character,
  a backslash before two hexadecimal digits gives the byte they encode, any other
  character after a backslash is a failure, as is a double quote that is not escaped;
  a delimiter that is not escaped ends the value; any other character is copied. The
  result is \<open>None\<close> for a failure, and the bytes of the value with the rest of the
  string otherwise.
\<close>

fun spec_quoted_value :: "string \<Rightarrow> (string \<times> string) option" where
  "spec_quoted_value [] = Some ([], [])"
| "spec_quoted_value (c # s) =
     (if c = CHR 0x5C then
        (case s of
           [] \<Rightarrow> None
         | d # s' \<Rightarrow>
             if is_special d then
               (case spec_quoted_value s' of
                  None \<Rightarrow> None
                | Some (bs, r) \<Rightarrow> Some (d # bs, r))
             else
               (case s' of
                  [] \<Rightarrow> None
                | e # s'' \<Rightarrow>
                    if isxdigit d \<and> isxdigit e then
                      (case spec_quoted_value s'' of
                         None \<Rightarrow> None
                       | Some (bs, r) \<Rightarrow> Some (hex_byte d e # bs, r))
                    else None))
      else if c = CHR 0x22 then None
      else if is_delim c then Some ([], c # s)
      else
        (case spec_quoted_value s of
           None \<Rightarrow> None
         | Some (bs, r) \<Rightarrow> Some (c # bs, r)))"

text \<open>
  The value of a hexstring as the specification words it: each pair of hexadecimal
  digits gives one byte.
\<close>

fun spec_hex_value :: "string \<Rightarrow> string" where
  "spec_hex_value (d # e # s) = hex_byte d e # spec_hex_value s"
| "spec_hex_value s = []"






section \<open>Properties of the printer\<close>

lemmas print_defs = print_dn_parts_def print_dn_part_def stdpart_def is_stdpart_def
  print_utf8_def fputs_def strlen_def c_str_def attribute_def sentinel_def

text \<open>
  C1. The specification: the values are written in the order CN, OU, O, STREET, L, ST, C with
  \<open>", "\<close> between the groups that are not empty only, never at the end, so that the
  attributes OU=Eng, CN=Alice, O=Acme give \<open>Alice, Eng, Acme\<close>. The code writes the
  separator when the previous standard part printed something, before it knows whether
  the next one prints: for these attributes the text ends with a separator, whatever
  the character set conversion and whatever the stream held before. The array is the
  one that \<open>parse_dn\<close> returns for \<open>OU=Eng,CN=Alice,O=Acme\<close>.
\<close>

theorem print_dn_parts_trailing_separator:
  "print_dn_parts conv fp
     [attribute (1, ''OU'') (2, ''Eng''), attribute (3, ''CN'') (4, ''Alice''),
      attribute (5, ''O'') (6, ''Acme''), sentinel] =
   Inr (fp @ conv ''Alice'' @ '', '' @ conv ''Eng'' @ '', '' @ conv ''Acme'' @ '', '')
   \<and> print_dn_parts (\<lambda>s. s) []
     [attribute (1, ''OU'') (2, ''Eng''), attribute (3, ''CN'') (4, ''Alice''),
      attribute (5, ''O'') (6, ''Acme''), sentinel] = Inr ''Alice, Eng, Acme, ''
   \<and> parse_dn heap0 (''OU=Eng,CN=Alice,O=Acme'' @ [NUL]) =
     Inr (\<lparr>brk = 7, live = {0, 1, 2, 3, 4, 5, 6}\<rparr>,
       Some (0, [attribute (1, ''OU'') (2, ''Eng''), attribute (3, ''CN'') (4, ''Alice''),
                 attribute (5, ''O'') (6, ''Acme''), sentinel]))"
proof (intro conjI)
  show "print_dn_parts conv fp
     [attribute (1, ''OU'') (2, ''Eng''), attribute (3, ''CN'') (4, ''Alice''),
      attribute (5, ''O'') (6, ''Acme''), sentinel] =
   Inr (fp @ conv ''Alice'' @ '', '' @ conv ''Eng'' @ '', '' @ conv ''Acme'' @ '', '')"
    by (simp add: print_defs)
  show "print_dn_parts (\<lambda>s. s) []
     [attribute (1, ''OU'') (2, ''Eng''), attribute (3, ''CN'') (4, ''Alice''),
      attribute (5, ''O'') (6, ''Acme''), sentinel] = Inr ''Alice, Eng, Acme, ''"
    by (simp add: print_defs)
  show "parse_dn heap0 (''OU=Eng,CN=Alice,O=Acme'' @ [NUL]) =
     Inr (\<lparr>brk = 7, live = {0, 1, 2, 3, 4, 5, 6}\<rparr>,
       Some (0, [attribute (1, ''OU'') (2, ''Eng''), attribute (3, ''CN'') (4, ''Alice''),
                 attribute (5, ''O'') (6, ''Acme''), sentinel]))"
    by code_simp
qed

lemma strcmp_eq_0: "strcmp a b = 0 \<longleftrightarrow> c_str a = c_str b"
  by (induction a b rule: strcmp.induct) (auto simp: c_str_def)

lemma is_stdpart_cong: "strcmp a b = 0 \<Longrightarrow> is_stdpart a = is_stdpart b"
  by (simp add: is_stdpart_def strcmp_eq_0 list_ex_iff)

lemma dn_array_Nil: "dn_array [] = [sentinel]"
  by (simp add: dn_array_def)

lemma dn_array_Cons: "dn_array ((k, v) # ps) = attribute k v # dn_array ps"
  by (simp add: dn_array_def)

lemma join_Cons: "join sep (x # xs) = x @ (if xs = [] then [] else sep @ join sep xs)"
  by (cases xs) auto

lemma print_dn_part_loop_dn_array:
  "print_dn_part_loop conv fp any (dn_array ps) ky =
     Inr (let ms = map (\<lambda>(k, v). printed conv (snd v)) (filter (\<lambda>(k, v). strcmp (snd k) ky = 0) ps)
          in if ms = [] then (fp, any)
             else (fp @ (if any then '' + '' else []) @ join '' + '' ms, True))"
proof (induction ps arbitrary: fp any)
  case Nil
  show ?case by (simp add: dn_array_Nil sentinel_def)
next
  case (Cons p ps)
  obtain ka k va v where p: "p = ((ka, k), (va, v))"
    by (metis surj_pair)
  show ?case
    by (simp add: p dn_array_Cons attribute_def Cons print_utf8_def fputs_def printed_def Let_def join_Cons)
qed

lemma print_other_parts_dn_array:
  assumes "distinct (map (\<lambda>(k, v). c_str (snd k)) (other_parts ps))"
  shows "print_other_parts conv fp any any2 (dn_array ps) =
     Inr (if other_parts ps = [] then (fp, any2)
          else (fp @ (if any then '', '' else []) @ (if any2 then [] else ''('')
                  @ join '', '' (map (\<lambda>(k, v). printed conv (snd v)) (other_parts ps)), True))"
  using assms
proof (induction ps arbitrary: fp any any2)
  case Nil
  show ?case by (simp add: dn_array_Nil sentinel_def other_parts_def)
next
  case (Cons p ps)
  obtain ka k va v where p: "p = ((ka, k), (va, v))"
    by (metis surj_pair)
  show ?case
  proof (cases "is_stdpart k")
    case True
    with Cons show ?thesis
      by (simp add: p dn_array_Cons attribute_def other_parts_def)
  next
    case False
    have o: "other_parts (p # ps) = p # other_parts ps"
      using False by (simp add: p other_parts_def)
    with Cons.prems have d: "distinct (map (\<lambda>(k, v). c_str (snd k)) (other_parts ps))"
      and n: "c_str k \<notin> (\<lambda>(k, v). c_str (snd k)) ` set (other_parts ps)"
      by (simp_all add: p)
    have "filter (\<lambda>(k', v). strcmp (snd k') k = 0) ps = []"
    proof (rule ccontr)
      assume "filter (\<lambda>(k', v). strcmp (snd k') k = 0) ps \<noteq> []"
      then obtain k' v' where in_ps: "(k', v') \<in> set ps" and eq: "strcmp (snd k') k = 0"
        by (auto simp: filter_empty_conv)
      from eq False have "\<not> is_stdpart (snd k')"
        using is_stdpart_cong by blast
      with in_ps have "(k', v') \<in> set (other_parts ps)"
        by (simp add: other_parts_def)
      moreover from eq have "c_str (snd k') = c_str k"
        by (simp add: strcmp_eq_0)
      ultimately show False using n by force
    qed
    then have part: "print_dn_part conv fp' (dn_array (p # ps)) k = Inr (fp' @ printed conv v, True)" for fp'
      by (simp add: print_dn_part_def print_dn_part_loop_dn_array p strcmp_eq_0 Let_def)
    show ?thesis
      using False
      by (simp add: o [unfolded p] part [unfolded p dn_array_Cons attribute_def] Cons.IH [OF d] p dn_array_Cons attribute_def fputs_def join_Cons Let_def)
  qed
qed

lemma print_dn_part_dn_array:
  "print_dn_part conv fp (dn_array ps) p =
     Inr (if part_values ps p = [] then (fp, False)
          else (fp @ join '' + '' (map (\<lambda>(k, v). printed conv (snd v)) (part_values ps p)), True))"
  by (simp add: print_dn_part_def print_dn_part_loop_dn_array part_values_def Let_def)

lemma print_std_parts_dn_array:
  "\<exists>fp' any'. print_std_parts conv fp any (dn_array ps) parts = Inr (fp', any') \<and>
     fp' @ (if any' then '', '' else []) =
     fp @ (if any then '', '' else []) @ concat (map (std_group conv ps) parts)"
proof (induction parts arbitrary: fp any)
  case Nil
  show ?case by simp
next
  case (Cons p parts)
  let ?fp0 = "if any then fputs '', '' fp else fp"
  let ?g = "join '' + '' (map (\<lambda>(k, v). printed conv (snd v)) (part_values ps p))"
  show ?case
  proof (cases "part_values ps p = []")
    case True
    from Cons [of ?fp0 False] obtain fp' any' where
      "print_std_parts conv ?fp0 False (dn_array ps) parts = Inr (fp', any')"
      "fp' @ (if any' then '', '' else []) = ?fp0 @ concat (map (std_group conv ps) parts)"
      by auto
    moreover from True have "std_group conv ps p = []"
      by (simp add: std_group_def)
    ultimately show ?thesis
      using True by (simp add: print_dn_part_dn_array fputs_def)
  next
    case False
    from Cons [of "?fp0 @ ?g" True] obtain fp' any' where
      "print_std_parts conv (?fp0 @ ?g) True (dn_array ps) parts = Inr (fp', any')"
      "fp' @ (if any' then '', '' else []) = (?fp0 @ ?g) @ '', '' @ concat (map (std_group conv ps) parts)"
      by auto
    moreover from False have "std_group conv ps p = ?g @ '', ''"
      by (simp add: std_group_def)
    ultimately show ?thesis
      using False by (simp add: print_dn_part_dn_array fputs_def)
  qed
qed

text \<open>
  C2, as amended. For every array that has attributes with keys that are none of
  \<open>stdpart\<close>, those keys different from each other, the text printed is: for each entry
  of \<open>stdpart\<close> in turn that is the key of some attribute, the values of those
  attributes with \<open>" + "\<close> between them and \<open>", "\<close> behind; then one pair of
  parentheses around the values of the other attributes, each once and in the order of
  the array, with \<open>", "\<close> between them. The attributes CN=A, X=1, Y=2 give
  \<open>A, (1, 2)\<close>.
\<close>

theorem print_dn_parts_other_group:
  assumes "other_parts ps \<noteq> []"
    and "distinct (map (\<lambda>(k, v). c_str (snd k)) (other_parts ps))"
  shows "print_dn_parts conv fp (dn_array ps) =
       Inr (fp @ concat (map (std_group conv ps) stdpart) @ ''(''
               @ join '', '' (map (\<lambda>(k, v). printed conv (snd v)) (other_parts ps)) @ '')'')"
proof -
  from print_std_parts_dn_array [of conv fp False ps stdpart] obtain fp1 any where
    std: "print_std_parts conv fp False (dn_array ps) stdpart = Inr (fp1, any)"
    and out: "fp1 @ (if any then '', '' else []) = fp @ concat (map (std_group conv ps) stdpart)"
    by auto
  have "print_dn_parts conv fp (dn_array ps) =
       Inr ((fp1 @ (if any then '', '' else [])) @ ''(''
               @ join '', '' (map (\<lambda>(k, v). printed conv (snd v)) (other_parts ps)) @ '')'')"
    using assms(1)
    by (simp add: print_dn_parts_def std print_other_parts_dn_array [OF assms(2)] fputs_def)
  then show ?thesis
    unfolding out by simp
qed

lemma other_parts_example:
  "other_parts [((a, ''CN''), va), ((b, ''X''), vb), ((c, ''Y''), vc)] =
     [((b, ''X''), vb), ((c, ''Y''), vc)]"
  by (simp add: other_parts_def is_stdpart_def stdpart_def)

lemma std_groups_example:
  "concat (map (std_group (\<lambda>s. s) [((a, ''CN''), (a', ''A'')), ((b, ''X''), vb), ((c, ''Y''), vc)]) stdpart) = ''A, ''"
  by (simp add: std_group_def part_values_def stdpart_def printed_def strlen_def c_str_def)

theorem print_dn_parts_other_group_witness:
  "other_parts [((1, ''CN''), (2, ''A'')), ((3, ''X''), (4, ''1'')), ((5, ''Y''), (6, ''2''))] \<noteq> []
   \<and> distinct (map (\<lambda>(k, v). c_str (snd k))
      (other_parts [((1, ''CN''), (2, ''A'')), ((3, ''X''), (4, ''1'')), ((5, ''Y''), (6, ''2''))]))
   \<and> print_dn_parts (\<lambda>s. s) []
        (dn_array [((1, ''CN''), (2, ''A'')), ((3, ''X''), (4, ''1'')), ((5, ''Y''), (6, ''2''))]) =
      Inr ''A, (1, 2)''"
proof -
  let ?ps = "[((1::nat, ''CN''), (2::nat, ''A'')), ((3, ''X''), (4, ''1'')), ((5, ''Y''), (6, ''2''))]"
  have n: "other_parts ?ps \<noteq> []"
    by (simp add: other_parts_example)
  have d: "distinct (map (\<lambda>(k, v). c_str (snd k)) (other_parts ?ps))"
    by (simp add: other_parts_example c_str_def)
  from print_dn_parts_other_group [OF n d, of "\<lambda>s. s" "[]"]
  have "print_dn_parts (\<lambda>s. s) [] (dn_array ?ps) = Inr ''A, (1, 2)''"
    unfolding std_groups_example other_parts_example
    by (simp add: printed_def strlen_def c_str_def)
  with n d show ?thesis by blast
qed

text \<open>
  C2, as specified: the attributes CN=A, X=1, Y=2 give \<open>A (1, 2)\<close>. The code writes
  \<open>", "\<close> between \<open>A\<close> and the parenthesis.
\<close>

theorem print_dn_parts_parenthesis_counterexample:
  "print_dn_parts (\<lambda>s. s) []
     [attribute (1, ''CN'') (2, ''A''), attribute (3, ''X'') (4, ''1''),
      attribute (5, ''Y'') (6, ''2''), sentinel] \<noteq> Inr ''A (1, 2)''"
  by (simp add: print_defs)

text \<open>
  The printer writes the separators, the parentheses and the values, and nothing else.
\<close>

lemma printed_values_Cons:
  "set (printed_values conv (d # dn)) =
     (case val d of None \<Rightarrow> {} | Some (a, v) \<Rightarrow> {printed conv v}) \<union> set (printed_values conv dn)"
  by (auto simp: printed_values_def split: option.splits)

lemma print_dn_part_loop_chars:
  "print_dn_part_loop conv fp any dn ky = Inr (fp', any') \<Longrightarrow>
   set fp' \<subseteq> set fp \<union> set '' + '' \<union> \<Union> (set ` set (printed_values conv dn))"
proof (induction dn arbitrary: fp any)
  case Nil
  then show ?case by simp
next
  case (Cons d dn)
  show ?case
  proof (cases "key d")
    case None
    with Cons.prems show ?thesis by auto
  next
    case (Some p)
    obtain a k where p: "p = (a, k)" by (cases p)
    show ?thesis
    proof (cases "strcmp k ky = 0")
      case False
      with Cons.prems Some p have "print_dn_part_loop conv fp any dn ky = Inr (fp', any')"
        by simp
      from Cons.IH [OF this] show ?thesis
        by (auto simp: printed_values_Cons)
    next
      case True
      with Cons.prems Some p obtain b v where v: "val d = Some (b, v)"
        by (cases "val d") auto
      let ?fp = "print_utf8 conv (if any then fputs '' + '' fp else fp) v (strlen v)"
      from Cons.prems Some p True v have "print_dn_part_loop conv ?fp True dn ky = Inr (fp', any')"
        by simp
      from Cons.IH [OF this] have "set fp' \<subseteq> set ?fp \<union> set '' + '' \<union> \<Union> (set ` set (printed_values conv dn))" .
      moreover have "set ?fp \<subseteq> set fp \<union> set '' + '' \<union> set (printed conv v)"
        by (auto simp: print_utf8_def fputs_def printed_def)
      ultimately show ?thesis
        by (auto simp: printed_values_Cons v)
    qed
  qed
qed

lemma printed_values_mono: "set (printed_values conv dn) \<subseteq> set (printed_values conv (d # dn))"
  by (auto simp: printed_values_def)

lemma print_dn_part_chars:
  assumes "print_dn_part conv fp dn ky = Inr (fp', any')" and "set fp \<subseteq> A"
    and "set '' + '' \<subseteq> A" and "\<Union> (set ` set (printed_values conv dn)) \<subseteq> A"
  shows "set fp' \<subseteq> A"
  using print_dn_part_loop_chars [OF assms(1) [unfolded print_dn_part_def]] assms(2-4)
  by blast

lemma print_std_parts_chars:
  assumes "print_std_parts conv fp any dn ps = Inr (fp', any')" and "set fp \<subseteq> A"
    and "set '', +'' \<subseteq> A" and "\<Union> (set ` set (printed_values conv dn)) \<subseteq> A"
  shows "set fp' \<subseteq> A"
  using assms(1,2)
proof (induction ps arbitrary: fp any)
  case Nil
  then show ?case by simp
next
  case (Cons p ps)
  let ?fp = "if any then fputs '', '' fp else fp"
  from Cons.prems(1) obtain fp1 any1 where
    part: "print_dn_part conv ?fp dn p = Inr (fp1, any1)"
    and rest: "print_std_parts conv fp1 any1 dn ps = Inr (fp', any')"
    by (simp split: sum.splits prod.splits)
  from Cons.prems(2) assms(3) have "set ?fp \<subseteq> A"
    by (simp add: fputs_def)
  from print_dn_part_chars [OF part this _ assms(4)] assms(3) have "set fp1 \<subseteq> A"
    by simp
  from Cons.IH [OF rest this] show ?case .
qed

lemma print_other_parts_chars:
  assumes "print_other_parts conv fp any any2 dn = Inr (fp', any2')" and "set fp \<subseteq> A"
    and "set '', +('' \<subseteq> A" and "\<Union> (set ` set (printed_values conv dn)) \<subseteq> A"
  shows "set fp' \<subseteq> A"
  using assms(1,2,4)
proof (induction dn arbitrary: fp any any2)
  case Nil
  then show ?case by simp
next
  case (Cons d dn)
  from Cons.prems(3) printed_values_mono [of conv dn d]
  have vals: "\<Union> (set ` set (printed_values conv dn)) \<subseteq> A"
    by blast
  show ?case
  proof (cases "key d")
    case None
    with Cons.prems show ?thesis by simp
  next
    case (Some p)
    obtain a k where p: "p = (a, k)" by (cases p)
    show ?thesis
    proof (cases "is_stdpart k")
      case True
      with Cons.prems(1) Some p have "print_other_parts conv fp any any2 dn = Inr (fp', any2')"
        by simp
      from Cons.IH [OF this Cons.prems(2) vals] show ?thesis .
    next
      case False
      let ?fp1 = "if any then fputs '', '' fp else fp"
      let ?fp2 = "if \<not> any2 then fputs ''('' ?fp1 else ?fp1"
      from Cons.prems(1) Some p False obtain fp3 any3 where
        part: "print_dn_part conv ?fp2 (d # dn) k = Inr (fp3, any3)"
        and rest: "print_other_parts conv fp3 any3 True dn = Inr (fp', any2')"
        by (simp add: Let_def split: sum.splits prod.splits)
      from Cons.prems(2) assms(3) have "set ?fp2 \<subseteq> A"
        by (simp add: fputs_def)
      from print_dn_part_chars [OF part this _ Cons.prems(3)] assms(3) have "set fp3 \<subseteq> A"
        by simp
      from Cons.IH [OF rest this vals] show ?thesis .
    qed
  qed
qed

lemma print_dn_parts_chars:
  assumes "print_dn_parts conv fp dn = Inr out" and "set fp \<subseteq> A"
    and "set '', +()'' \<subseteq> A" and "\<Union> (set ` set (printed_values conv dn)) \<subseteq> A"
  shows "set out \<subseteq> A"
proof -
  from assms(1) obtain fp1 any1 fp2 any2 where
    std: "print_std_parts conv fp False dn stdpart = Inr (fp1, any1)"
    and oth: "print_other_parts conv fp1 any1 False dn = Inr (fp2, any2)"
    and out: "out = (if any2 then fputs '')'' fp2 else fp2)"
    by (auto simp: print_dn_parts_def split: sum.splits)
  from assms(3) have sep: "set '', +'' \<subseteq> A" "set '', +('' \<subseteq> A" "set '')'' \<subseteq> A"
    by simp_all
  from print_std_parts_chars [OF std assms(2) sep(1) assms(4)] have "set fp1 \<subseteq> A" .
  from print_other_parts_chars [OF oth this sep(2) assms(4)] have "set fp2 \<subseteq> A" .
  with sep(3) show ?thesis
    unfolding out by (simp add: fputs_def)
qed

section \<open>Properties of the parser\<close>

subsection \<open>The loop of \<open>parse_dn\<close>\<close>

text \<open>
  The equation of the loop is applied by hand: one case for each way through its body.
  Where the loop goes round again, the rest of the string is shorter.
\<close>

declare parse_dn_loop.simps [simp del]

lemma skip_spaces_Inr: "skip_spaces s = Inr r \<Longrightarrow> \<exists>c t. r = c # t \<and> c \<noteq> CHR '' ''"
  by (induction s) (auto split: if_splits)

lemma parse_dn_loop_cases:
  obtains
    (empty) "str = []"
      "parse_dn_loop h array arraysize cells str = Inl ReadPastEnd"
  | (finished) t where "str = NUL # t"
      "parse_dn_loop h array arraysize cells str = Inr (h, Some (array, cells @ [sentinel]))"
  | (spaces_error) e where "skip_spaces str = Inl e"
      "parse_dn_loop h array arraysize cells str = Inl e"
  | (spaces_only) s1 where "skip_spaces str = Inr (NUL # s1)"
      "parse_dn_loop h array arraysize cells str = Inr (h, Some (array, cells @ [sentinel]))"
  | (part_error) c1 s1 h1 array1 arraysize1 e where
      "skip_spaces str = Inr (c1 # s1)" "c1 \<noteq> NUL"
      "grow h array arraysize (length cells) = (h1, array1, arraysize1)"
      "parse_dn_part h1 sentinel (c1 # s1) = Inl e"
      "parse_dn_loop h array arraysize cells str = Inl e"
  | (part_null) c1 s1 h1 array1 arraysize1 h2 cell where
      "skip_spaces str = Inr (c1 # s1)" "c1 \<noteq> NUL"
      "grow h array arraysize (length cells) = (h1, array1, arraysize1)"
      "parse_dn_part h1 sentinel (c1 # s1) = Inr (h2, cell, None)"
      "parse_dn_loop h array arraysize cells str = Inr (failure array1 (cells @ [cell]) h2, None)"
  | (delimiter_error) c1 s1 h1 array1 arraysize1 h2 cell s2 e where
      "skip_spaces str = Inr (c1 # s1)" "c1 \<noteq> NUL"
      "grow h array arraysize (length cells) = (h1, array1, arraysize1)"
      "parse_dn_part h1 sentinel (c1 # s1) = Inr (h2, cell, Some s2)"
      "skip_spaces s2 = Inl e"
      "parse_dn_loop h array arraysize cells str = Inl e"
  | (delimiter_invalid) c1 s1 h1 array1 arraysize1 h2 cell s2 c3 s3 where
      "skip_spaces str = Inr (c1 # s1)" "c1 \<noteq> NUL"
      "grow h array arraysize (length cells) = (h1, array1, arraysize1)"
      "parse_dn_part h1 sentinel (c1 # s1) = Inr (h2, cell, Some s2)"
      "skip_spaces s2 = Inr (c3 # s3)"
      "c3 \<noteq> NUL" "c3 \<noteq> CHR '',''" "c3 \<noteq> CHR '';''" "c3 \<noteq> CHR ''+''"
      "parse_dn_loop h array arraysize cells str = Inr (failure array1 (cells @ [cell]) h2, None)"
  | (continue) c1 s1 h1 array1 arraysize1 h2 cell s2 c3 s3 str' where
      "skip_spaces str = Inr (c1 # s1)" "c1 \<noteq> NUL"
      "grow h array arraysize (length cells) = (h1, array1, arraysize1)"
      "parse_dn_part h1 sentinel (c1 # s1) = Inr (h2, cell, Some s2)"
      "skip_spaces s2 = Inr (c3 # s3)"
      "c3 = NUL \<or> c3 = CHR '','' \<or> c3 = CHR '';'' \<or> c3 = CHR ''+''"
      "str' = (if c3 \<noteq> NUL then s3 else c3 # s3)"
      "length str' < length str"
      "parse_dn_loop h array arraysize cells str =
         parse_dn_loop h2 array1 arraysize1 (cells @ [cell]) str'"
proof (cases str)
  case Nil
  then show thesis
    using empty by (simp add: parse_dn_loop.simps)
next
  case (Cons x t)
  note str = Cons
  show thesis
  proof (cases "x = NUL")
    case True
    with str show thesis
      using finished by (simp add: parse_dn_loop.simps)
  next
    case False
    note x = False
    show thesis
    proof (cases "skip_spaces str")
      case (Inl e)
      with str x show thesis
        using spaces_error by (simp add: parse_dn_loop.simps)
    next
      case (Inr r)
      from Inr obtain c1 s1 where r: "r = c1 # s1"
        using skip_spaces_Inr by blast
      note sk = Inr [unfolded r]
      show thesis
      proof (cases "c1 = NUL")
        case True
        with str x sk show thesis
          using spaces_only by (simp add: parse_dn_loop.simps)
      next
        case False
        note c1 = False
        obtain h1 array1 arraysize1 where
          g: "grow h array arraysize (length cells) = (h1, array1, arraysize1)"
          by (metis prod_cases3)
        show thesis
        proof (cases "parse_dn_part h1 sentinel (c1 # s1)")
          case (Inl e)
          with str x sk c1 g show thesis
            using part_error [OF sk c1 g Inl] by (simp add: parse_dn_loop.simps)
        next
          case (Inr res)
          obtain h2 cell so where res: "res = (h2, cell, so)"
            by (metis prod_cases3)
          note part = Inr [unfolded res]
          show thesis
          proof (cases so)
            case None
            with str x sk c1 g part show thesis
              using part_null [OF sk c1 g part [unfolded None]] by (simp add: parse_dn_loop.simps)
          next
            case (Some s2)
            note part = part [unfolded Some]
            show thesis
            proof (cases "skip_spaces s2")
              case (Inl e)
              with str x sk c1 g part show thesis
                using delimiter_error [OF sk c1 g part Inl] by (simp add: parse_dn_loop.simps)
            next
              case (Inr r2)
              from Inr obtain c3 s3 where r2: "r2 = c3 # s3"
                using skip_spaces_Inr by blast
              note sk2 = Inr [unfolded r2]
              show thesis
              proof (cases "c3 \<noteq> NUL \<and> c3 \<noteq> CHR '','' \<and> c3 \<noteq> CHR '';'' \<and> c3 \<noteq> CHR ''+''")
                case True
                with str x sk c1 g part sk2 show thesis
                  using delimiter_invalid [OF sk c1 g part sk2] by (simp add: parse_dn_loop.simps)
              next
                case False
                have "length (c3 # s3) \<le> length s2"
                  using skip_spaces_length [OF sk2] .
                moreover have "length s2 < length (c1 # s1)"
                  using parse_dn_part_length [OF part] .
                moreover have "length (c1 # s1) \<le> length str"
                  using skip_spaces_length [OF sk] .
                ultimately have len: "length (if c3 \<noteq> NUL then s3 else c3 # s3) < length str"
                  by auto
                have "parse_dn_loop h array arraysize cells str =
                    parse_dn_loop h2 array1 arraysize1 (cells @ [cell]) (if c3 \<noteq> NUL then s3 else c3 # s3)"
                  using str x sk c1 g part sk2 False
                  by (subst parse_dn_loop.simps) auto
                with False len show thesis
                  using continue [OF sk c1 g part sk2 _ refl] by blast
              qed
            qed
          qed
        qed
      qed
    qed
  qed
qed

lemma parse_dn_loop_finished:
  "parse_dn_loop h array arraysize cells (NUL # t) = Inr (h, Some (array, cells @ [sentinel]))"
  by (simp add: parse_dn_loop.simps)

lemma parse_dn_loop_part_null:
  assumes "skip_spaces str = Inr (c1 # s1)" "c1 \<noteq> NUL"
    and "grow h array arraysize (length cells) = (h1, array1, arraysize1)"
    and "parse_dn_part h1 sentinel (c1 # s1) = Inr (h2, cell, None)"
  shows "parse_dn_loop h array arraysize cells str = Inr (failure array1 (cells @ [cell]) h2, None)"
  by (cases h array arraysize cells str rule: parse_dn_loop_cases) (use assms in auto)

lemma parse_dn_loop_continue:
  assumes "skip_spaces str = Inr (c1 # s1)" "c1 \<noteq> NUL"
    and "grow h array arraysize (length cells) = (h1, array1, arraysize1)"
    and "parse_dn_part h1 sentinel (c1 # s1) = Inr (h2, cell, Some s2)"
    and "skip_spaces s2 = Inr (c3 # s3)"
    and "c3 = NUL \<or> c3 = CHR '','' \<or> c3 = CHR '';'' \<or> c3 = CHR ''+''"
  shows "parse_dn_loop h array arraysize cells str =
     parse_dn_loop h2 array1 arraysize1 (cells @ [cell]) (if c3 \<noteq> NUL then s3 else c3 # s3)"
  by (cases h array arraysize cells str rule: parse_dn_loop_cases) (use assms in auto)

lemma parse_dn_loop_delimiter_invalid:
  assumes "skip_spaces str = Inr (c1 # s1)" "c1 \<noteq> NUL"
    and "grow h array arraysize (length cells) = (h1, array1, arraysize1)"
    and "parse_dn_part h1 sentinel (c1 # s1) = Inr (h2, cell, Some s2)"
    and "skip_spaces s2 = Inr (c3 # s3)"
    and "c3 \<noteq> NUL" "c3 \<noteq> CHR '',''" "c3 \<noteq> CHR '';''" "c3 \<noteq> CHR ''+''"
  shows "parse_dn_loop h array arraysize cells str = Inr (failure array1 (cells @ [cell]) h2, None)"
  by (cases h array arraysize cells str rule: parse_dn_loop_cases) (use assms in auto)

subsection \<open>The hexstring and the attribute type\<close>

text \<open>
  The hexstring loop steps over two characters at a time, so the length it finds is
  even: the test \<open>n & 1\<close> of \<open>parse_dn_part\<close> never holds.
\<close>

lemma scan_hex_even: "scan_hex str = Inr s \<Longrightarrow> even (length str - length s)"
proof (induction str rule: scan_hex.induct)
  case 1
  then show ?case by simp
next
  case (2 c)
  then show ?case by (auto split: if_splits)
next
  case (3 c d s')
  show ?case
  proof (cases "isxdigit c")
    case True
    with 3 have "even (length s' - length s)" by simp
    moreover from 3 True have "length s \<le> length s'"
      by (simp add: scan_hex_length)
    ultimately show ?thesis by (simp add: Suc_diff_le)
  next
    case False
    with 3 show ?thesis by auto
  qed
qed

text \<open>
  C3. The specification: a hexstring with no digit or an odd number of digits makes \<open>parse_dn\<close>
  fail, as for \<open>CN=#ABC\<close>. The code reads \<open>A\<close>, steps over \<open>B\<close>, reads \<open>C\<close>, steps
  over the terminator and reads the byte behind the string. When the buffer ends with
  the terminator that read is outside it; when a zero byte follows, \<open>parse_dn\<close> returns
  the array with the value 0xAB 0x0C. \<open>parse_dn\<close> of \<open>CN=#ABC,,O=x\<close> stays inside the
  string: the loop steps over the first comma, and the array is returned with the same
  value for CN.
\<close>

theorem parse_dn_odd_hexstring:
  "parse_dn heap0 (''CN=#ABC'' @ [NUL]) = Inl ReadPastEnd
   \<and> parse_dn heap0 (''CN=#ABC'' @ [NUL, NUL]) =
     Inr (\<lparr>brk = 3, live = {0, 1, 2}\<rparr>,
       Some (0, [attribute (1, ''CN'') (2, [CHR 0xAB, CHR 0x0C]), sentinel]))
   \<and> parse_dn heap0 (''CN=#ABC,,O=x'' @ [NUL]) =
     Inr (\<lparr>brk = 5, live = {0, 1, 2, 3, 4}\<rparr>,
       Some (0, [attribute (1, ''CN'') (2, [CHR 0xAB, CHR 0x0C]), attribute (3, ''O'') (4, ''x''),
                 sentinel]))"
  by code_simp


subsection \<open>Quoted strings\<close>

lemma isxdigit_cases:
  "isxdigit d \<Longrightarrow> d \<noteq> NUL \<and> \<not> isspace d \<and> \<not> is_special d \<and> d \<noteq> CHR '' ''"
  by (auto simp: isxdigit_def isspace_def is_special_def)

lemma sscanf_2hhx_digits:
  "isxdigit d \<Longrightarrow> isxdigit e \<Longrightarrow> sscanf_2hhx (d # e # s) = Some (hex_byte d e)"
  using isxdigit_cases [of d] isxdigit_cases [of e]
  by (simp add: sscanf_2hhx_def c_str_def hex_byte_def)

lemma not_special_NUL: "\<not> is_special NUL" "\<not> isxdigit NUL" "\<not> is_delim NUL"
  by (simp_all add: is_special_def isxdigit_def is_delim_def)

lemma count_value_spec:
  "NUL \<notin> set v \<Longrightarrow>
   count_value m (v @ NUL # t) =
     Inr (case spec_quoted_value v of None \<Rightarrow> None | Some (bs, r) \<Rightarrow> Some (m + length bs))"
proof (induction v arbitrary: m rule: spec_quoted_value.induct)
  case 1
  show ?case by simp
next
  case (2 c s)
  show ?case
  proof (cases "c = CHR 0x5C")
    case True
    note bs = True
    show ?thesis
    proof (cases s)
      case Nil
      with bs show ?thesis by (simp add: not_special_NUL)
    next
      case (Cons d s')
      note s = Cons
      show ?thesis
      proof (cases "is_special d")
        case True
        with 2(1) [OF bs s True, of "m + 1"] 2(4) bs s show ?thesis
          by (simp split: option.splits)
      next
        case False
        note d = False
        show ?thesis
        proof (cases s')
          case Nil
          with bs s d show ?thesis by (simp add: not_special_NUL)
        next
          case (Cons e s'')
          show ?thesis
          proof (cases "isxdigit d \<and> isxdigit e")
            case True
            with 2(2) [OF bs s d Cons True, of "m + 1"] 2(4) bs s d Cons show ?thesis
              by (simp split: option.splits)
          next
            case False
            with bs s d Cons show ?thesis by auto
          qed
        qed
      qed
    qed
  next
    case False
    note nbs = False
    show ?thesis
    proof (cases "c = CHR 0x22")
      case True
      with nbs 2(4) show ?thesis by simp
    next
      case False
      note nq = False
      show ?thesis
      proof (cases "is_delim c")
        case True
        with nbs nq 2(4) show ?thesis by simp
      next
        case False
        with 2(3) [OF nbs nq False, of "m + 1"] 2(4) nbs nq show ?thesis
          by (simp split: option.splits)
      qed
    qed
  qed
qed

lemma copy_value_spec:
  "spec_quoted_value v = Some (bs, r) \<Longrightarrow> copy_value (length bs) (v @ t) = Inr (bs, r @ t)"
proof (induction v arbitrary: bs r rule: spec_quoted_value.induct)
  case 1
  then show ?case by simp
next
  case (2 c s)
  show ?case
  proof (cases "c = CHR 0x5C")
    case True
    note bsl = True
    from 2(4) bsl obtain d s' where s: "s = d # s'"
      by (cases s) auto
    show ?thesis
    proof (cases "is_special d")
      case True
      with 2(4) bsl s obtain bs' where
        sp: "spec_quoted_value s' = Some (bs', r)" and bs: "bs = d # bs'"
        by (auto split: option.splits)
      from True have "\<not> isxdigit d"
        using isxdigit_cases by blast
      with 2(1) [OF bsl s True sp] bsl s bs show ?thesis
        by simp
    next
      case False
      note d = False
      from 2(4) bsl s d obtain e s'' where s': "s' = e # s''"
        by (cases s') auto
      from 2(4) bsl s d s' have x: "isxdigit d \<and> isxdigit e"
        by (auto split: if_splits)
      with 2(4) bsl s d s' obtain bs' where
        sp: "spec_quoted_value s'' = Some (bs', r)" and bs: "bs = hex_byte d e # bs'"
        by (auto split: option.splits)
      from 2(2) [OF bsl s d s' x sp] bsl s s' x bs show ?thesis
        by (simp add: sscanf_2hhx_digits)
    qed
  next
    case False
    note nbs = False
    show ?thesis
    proof (cases "c = CHR 0x22 \<or> is_delim c")
      case True
      with 2(4) nbs show ?thesis
        by (auto split: if_splits)
    next
      case False
      with 2(4) nbs obtain bs' where
        sp: "spec_quoted_value s = Some (bs', r)" and bs: "bs = c # bs'"
        by (auto split: option.splits)
      from False 2(3) [OF nbs _ _ sp] nbs bs show ?thesis
        by simp
    qed
  qed
qed

lemma parse_quoted_spec:
  assumes "NUL \<notin> set v"
  shows "parse_quoted h a (v @ NUL # t) =
     (case spec_quoted_value v of
        None \<Rightarrow> Inr (h, a, None)
      | Some (bs, r) \<Rightarrow>
          Inr (snd (mutt_mem_malloc h), a\<lparr>val := Some (brk h, bs)\<rparr>, Some (r @ NUL # t)))"
proof (cases "spec_quoted_value v")
  case None
  then show ?thesis
    by (simp add: parse_quoted_def count_value_spec [OF assms])
next
  case (Some p)
  obtain bs r where p: "p = (bs, r)" by (cases p)
  from copy_value_spec [OF Some [unfolded p], of "NUL # t"] show ?thesis
    by (simp add: parse_quoted_def count_value_spec [OF assms] Some p mutt_mem_malloc_def)
qed

lemma scan_type_to_equals:
  "CHR ''='' \<notin> set s \<Longrightarrow> NUL \<notin> set s \<Longrightarrow> scan_type (s @ CHR ''='' # t) = Inr (CHR ''='' # t)"
  by (induction s) auto

lemma parse_dn_part_quoted:
  assumes k: "k \<noteq> []" "NUL \<notin> set k" "CHR ''='' \<notin> set (tl k)"
    and v: "NUL \<notin> set v" "take 1 v \<noteq> ''#''"
  shows "parse_dn_part h a (k @ ''='' @ v @ NUL # t) =
     (case spec_quoted_value v of
        None \<Rightarrow> Inr (snd (mutt_mem_malloc h), a\<lparr>key := Some (brk h, k)\<rparr>, None)
      | Some (bs, r) \<Rightarrow>
          Inr (snd (mutt_mem_malloc (snd (mutt_mem_malloc h))),
               a\<lparr>key := Some (brk h, k), val := Some (Suc (brk h), bs)\<rparr>, Some (r @ NUL # t)))"
proof -
  from k(1) obtain c0 k' where kk: "k = c0 # k'" by (cases k) auto
  with k have k': "CHR ''='' \<notin> set k'" "NUL \<notin> set k'" by auto
  obtain x str' where x: "v @ NUL # t = x # str'" and nh: "x \<noteq> CHR ''#''"
    using v(2) by (cases v) auto
  have st: "scan_type (drop 1 (k @ ''='' @ v @ NUL # t)) = Inr (CHR ''='' # x # str')"
    using scan_type_to_equals [OF k', of "x # str'"] by (simp add: kk x)
  have n: "length (k @ ''='' @ v @ NUL # t) - length (CHR ''='' # x # str') = length k"
    by (simp add: x [symmetric])
  have "parse_dn_part h a (k @ ''='' @ v @ NUL # t) =
      parse_quoted (snd (mutt_mem_malloc h)) (a\<lparr>key := Some (brk h, k)\<rparr>) (v @ NUL # t)"
    unfolding parse_dn_part_def st n
    using nh k(1) by (simp add: mutt_mem_malloc_def x)
  then show ?thesis
    by (simp add: parse_quoted_spec [OF v(1)] mutt_mem_malloc_def split: option.splits)
qed

text \<open>
  C6. For a key and a value that does not start with \<open>#\<close>, the two loops of
  \<open>parse_dn_part\<close> over the quoted string compute the value of the specification:
  a backslash before a reserved character gives that character, a backslash before two
  hexadecimal digits gives the byte, and \<open>parse_dn\<close> returns NULL, with every block
  freed, where the specification fails, which is so after a backslash before anything
  else. Where the value runs to the end of the string, \<open>parse_dn\<close> returns the array
  with the one attribute. \<open>parse_dn\<close> of \<open>CN=John\,Doe\<close> returns the one attribute
  CN = \<open>John,Doe\<close>.
\<close>

theorem parse_dn_quoted_value:
  assumes k: "k \<noteq> []" "hd k \<noteq> CHR '' ''" "NUL \<notin> set k" "CHR ''='' \<notin> set (tl k)"
    and v: "NUL \<notin> set v" "take 1 v \<noteq> ''#''"
  shows "(spec_quoted_value v = None \<longrightarrow>
            parse_dn h (k @ ''='' @ v @ [NUL]) =
              Inr (h\<lparr>brk := brk h + 2, live := live h - {brk h, brk h + 1}\<rparr>, None))
       \<and> (\<forall>bs. spec_quoted_value v = Some (bs, []) \<longrightarrow>
            parse_dn h (k @ ''='' @ v @ [NUL]) =
              Inr (h\<lparr>brk := brk h + 3, live := live h \<union> {brk h, brk h + 1, brk h + 2}\<rparr>,
                   Some (brk h, [attribute (brk h + 1, k) (brk h + 2, bs), sentinel])))"
proof -
  let ?str = "k @ ''='' @ v @ [NUL]"
  let ?h1 = "snd (mutt_mem_malloc h)"
  from k obtain c0 k' where kk: "k = c0 # k'" and c0: "c0 \<noteq> CHR '' ''" "c0 \<noteq> NUL"
    by (cases k) auto
  have sk: "skip_spaces ?str = Inr (c0 # (k' @ ''='' @ v @ [NUL]))"
    using c0 by (simp add: kk)
  have g: "grow ?h1 (brk h) 7 (length ([] :: DnArray list)) = (?h1, brk h, 7)"
    by (simp add: grow_def)
  note part = parse_dn_part_quoted [OF k(1,3,4) v, of ?h1 sentinel "[]", unfolded kk append_Cons]
  have loop: "parse_dn h str = parse_dn_loop ?h1 (brk h) 7 [] str" for str
    by (simp add: parse_dn_def mutt_mem_malloc_def)
  have sets: "insert (brk h) (live h) - {Suc (brk h)} - {brk h} = live h - {brk h, Suc (brk h)}"
    "insert (Suc (Suc (brk h))) (insert (Suc (brk h)) (insert (brk h) (live h))) =
       live h \<union> {brk h, Suc (brk h), Suc (Suc (brk h))}"
    by auto
  show ?thesis
  proof (intro conjI allI impI)
    assume "spec_quoted_value v = None"
    with part have "parse_dn_part ?h1 sentinel (c0 # (k' @ ''='' @ v @ [NUL])) =
        Inr (snd (mutt_mem_malloc ?h1), sentinel\<lparr>key := Some (brk ?h1, c0 # k')\<rparr>, None)"
      by simp
    from parse_dn_loop_part_null [OF sk c0(2) g this] show
      "parse_dn h ?str = Inr (h\<lparr>brk := brk h + 2, live := live h - {brk h, brk h + 1}\<rparr>, None)"
      by (simp add: loop failure_def FREE_def mem_free_def mutt_mem_malloc_def sentinel_def kk sets)
  next
    fix bs
    assume "spec_quoted_value v = Some (bs, [])"
    with part have "parse_dn_part ?h1 sentinel (c0 # (k' @ ''='' @ v @ [NUL])) =
        Inr (snd (mutt_mem_malloc (snd (mutt_mem_malloc ?h1))),
             sentinel\<lparr>key := Some (brk ?h1, c0 # k'), val := Some (Suc (brk ?h1), bs)\<rparr>, Some [NUL])"
      by simp
    from parse_dn_loop_continue [OF sk c0(2) g this, of NUL "[]"] show
      "parse_dn h ?str =
         Inr (h\<lparr>brk := brk h + 3, live := live h \<union> {brk h, brk h + 1, brk h + 2}\<rparr>,
              Some (brk h, [attribute (brk h + 1, k) (brk h + 2, bs), sentinel]))"
      by (simp add: loop parse_dn_loop_finished mutt_mem_malloc_def sentinel_def attribute_def kk sets
          eval_nat_numeral)
  qed
qed

lemma John_Doe: "spec_quoted_value (''John'' @ [CHR 0x5C] @ '',Doe'') = Some (''John,Doe'', [])"
  by (simp add: is_special_def is_delim_def)

theorem parse_dn_quoted_value_witness:
  "''CN'' \<noteq> [] \<and> hd ''CN'' \<noteq> CHR '' '' \<and> NUL \<notin> set ''CN'' \<and> CHR ''='' \<notin> set (tl ''CN'')
   \<and> NUL \<notin> set (''John'' @ [CHR 0x5C] @ '',Doe'') \<and> take 1 (''John'' @ [CHR 0x5C] @ '',Doe'') \<noteq> ''#''
   \<and> spec_quoted_value (''John'' @ [CHR 0x5C] @ '',Doe'') = Some (''John,Doe'', [])
   \<and> parse_dn heap0 (''CN='' @ ''John'' @ [CHR 0x5C] @ '',Doe'' @ [NUL]) =
        Inr (\<lparr>brk = 3, live = {0, 1, 2}\<rparr>,
             Some (0, [attribute (1, ''CN'') (2, ''John,Doe''), sentinel]))"
proof -
  have a: "''CN'' \<noteq> []" "hd ''CN'' \<noteq> CHR '' ''" "NUL \<notin> set ''CN''" "CHR ''='' \<notin> set (tl ''CN'')"
    and b: "NUL \<notin> set (''John'' @ [CHR 0x5C] @ '',Doe'')" "take 1 (''John'' @ [CHR 0x5C] @ '',Doe'') \<noteq> ''#''"
    by simp_all
  from parse_dn_quoted_value [OF a b, of heap0] John_Doe
  have "parse_dn heap0 (''CN='' @ ''John'' @ [CHR 0x5C] @ '',Doe'' @ [NUL]) =
        Inr (\<lparr>brk = 3, live = {0, 1, 2}\<rparr>,
             Some (0, [attribute (1, ''CN'') (2, ''John,Doe''), sentinel]))"
    by (simp add: heap0_def eval_nat_numeral insert_commute)
  with a b John_Doe show ?thesis by blast
qed

subsection \<open>Hexstrings\<close>

lemma scan_hex_digits:
  "even (length ds) \<Longrightarrow> \<forall>c\<in>set ds. isxdigit c \<Longrightarrow> scan_hex (ds @ NUL # t) = Inr (NUL # t)"
proof (induction ds rule: induct_list012)
  case 1
  show ?case by (cases t) (simp_all add: not_special_NUL)
next
  case (2 d)
  then show ?case by simp
next
  case (3 d e s)
  then show ?case by simp
qed

lemma decode_hex_digits:
  "even (length ds) \<Longrightarrow> \<forall>c\<in>set ds. isxdigit c \<Longrightarrow>
   decode_hex (length ds div 2) (ds @ t) = Inr (spec_hex_value ds)"
  by (induction ds rule: spec_hex_value.induct) (auto simp: sscanf_2hhx_digits)

lemma parse_hexstring_digits:
  assumes "ds \<noteq> []" "even (length ds)" "\<forall>c\<in>set ds. isxdigit c"
  shows "parse_hexstring h a (ds @ NUL # t) =
     Inr (snd (mutt_mem_malloc h), a\<lparr>val := Some (brk h, spec_hex_value ds)\<rparr>, Some (NUL # t))"
  using assms
  by (simp add: parse_hexstring_def scan_hex_digits decode_hex_digits mutt_mem_malloc_def)

lemma parse_dn_part_hexstring:
  assumes k: "k \<noteq> []" "NUL \<notin> set k" "CHR ''='' \<notin> set (tl k)"
    and ds: "ds \<noteq> []" "even (length ds)" "\<forall>c\<in>set ds. isxdigit c"
  shows "parse_dn_part h a (k @ ''=#'' @ ds @ NUL # t) =
          Inr (snd (mutt_mem_malloc (snd (mutt_mem_malloc h))),
               a\<lparr>key := Some (brk h, k), val := Some (Suc (brk h), spec_hex_value ds)\<rparr>, Some (NUL # t))"
proof -
  from k(1) obtain c0 k' where kk: "k = c0 # k'" by (cases k) auto
  with k have k': "CHR ''='' \<notin> set k'" "NUL \<notin> set k'" by auto
  have st: "scan_type (drop 1 (k @ ''=#'' @ ds @ NUL # t)) = Inr (CHR ''='' # CHR ''#'' # ds @ NUL # t)"
    using scan_type_to_equals [OF k', of "CHR ''#'' # ds @ NUL # t"] by (simp add: kk)
  have n: "length (k @ ''=#'' @ ds @ NUL # t) - length (CHR ''='' # CHR ''#'' # ds @ NUL # t) = length k"
    by simp
  have "parse_dn_part h a (k @ ''=#'' @ ds @ NUL # t) =
      parse_hexstring (snd (mutt_mem_malloc h)) (a\<lparr>key := Some (brk h, k)\<rparr>) (ds @ NUL # t)"
    unfolding parse_dn_part_def st n
    using k(1) by (simp add: mutt_mem_malloc_def)
  then show ?thesis
    by (simp add: parse_hexstring_digits [OF ds] mutt_mem_malloc_def)
qed

text \<open>
  C7. For a key and a hexstring of an even number of hexadecimal digits, at least two,
  that runs to the end of the string, \<open>parse_dn\<close> returns the array with the one
  attribute, whose value has one byte for each pair of digits. \<open>parse_dn\<close> of
  \<open>CN=#48656C6C6F\<close> returns the one attribute CN = Hello.
\<close>

theorem parse_dn_hexstring_value:
  assumes k: "k \<noteq> []" "hd k \<noteq> CHR '' ''" "NUL \<notin> set k" "CHR ''='' \<notin> set (tl k)"
    and ds: "ds \<noteq> []" "even (length ds)" "\<forall>c\<in>set ds. isxdigit c"
  shows "parse_dn h (k @ ''=#'' @ ds @ [NUL]) =
           Inr (h\<lparr>brk := brk h + 3, live := live h \<union> {brk h, brk h + 1, brk h + 2}\<rparr>,
                Some (brk h, [attribute (brk h + 1, k) (brk h + 2, spec_hex_value ds), sentinel]))"
proof -
  let ?str = "k @ ''=#'' @ ds @ [NUL]"
  let ?h1 = "snd (mutt_mem_malloc h)"
  from k obtain c0 k' where kk: "k = c0 # k'" and c0: "c0 \<noteq> CHR '' ''" "c0 \<noteq> NUL"
    by (cases k) auto
  have sk: "skip_spaces ?str = Inr (c0 # (k' @ ''=#'' @ ds @ [NUL]))"
    using c0 by (simp add: kk)
  have g: "grow ?h1 (brk h) 7 (length ([] :: DnArray list)) = (?h1, brk h, 7)"
    by (simp add: grow_def)
  have part: "parse_dn_part ?h1 sentinel (c0 # (k' @ ''=#'' @ ds @ [NUL])) =
      Inr (snd (mutt_mem_malloc (snd (mutt_mem_malloc ?h1))),
           sentinel\<lparr>key := Some (brk ?h1, k), val := Some (Suc (brk ?h1), spec_hex_value ds)\<rparr>,
           Some [NUL])"
    using parse_dn_part_hexstring [OF k(1,3,4) ds, of ?h1 sentinel "[]"] by (simp add: kk)
  have loop: "parse_dn h str = parse_dn_loop ?h1 (brk h) 7 [] str" for str
    by (simp add: parse_dn_def mutt_mem_malloc_def)
  have sets: "insert (Suc (Suc (brk h))) (insert (Suc (brk h)) (insert (brk h) (live h))) =
       live h \<union> {brk h, Suc (brk h), Suc (Suc (brk h))}"
    by auto
  from parse_dn_loop_continue [OF sk c0(2) g part, of NUL "[]"] show ?thesis
    by (simp add: loop parse_dn_loop_finished mutt_mem_malloc_def sentinel_def attribute_def kk sets
        eval_nat_numeral)
qed

lemma Hello: "spec_hex_value ''48656C6C6F'' = ''Hello''"
  by code_simp

theorem parse_dn_hexstring_value_witness:
  "''CN'' \<noteq> [] \<and> hd ''CN'' \<noteq> CHR '' '' \<and> NUL \<notin> set ''CN'' \<and> CHR ''='' \<notin> set (tl ''CN'')
   \<and> ''48656C6C6F'' \<noteq> [] \<and> even (length ''48656C6C6F'') \<and> list_all isxdigit ''48656C6C6F''
   \<and> parse_dn heap0 (''CN=#48656C6C6F'' @ [NUL]) =
        Inr (\<lparr>brk = 3, live = {0, 1, 2}\<rparr>,
             Some (0, [attribute (1, ''CN'') (2, ''Hello''), sentinel]))"
proof -
  have a: "''CN'' \<noteq> []" "hd ''CN'' \<noteq> CHR '' ''" "NUL \<notin> set ''CN''" "CHR ''='' \<notin> set (tl ''CN'')"
    and b: "''48656C6C6F'' \<noteq> []" "even (length ''48656C6C6F'')" "\<forall>c\<in>set ''48656C6C6F''. isxdigit c"
    by (simp_all add: isxdigit_def)
  from parse_dn_hexstring_value [OF a b, of heap0, unfolded Hello]
  have "parse_dn heap0 (''CN=#48656C6C6F'' @ [NUL]) =
        Inr (\<lparr>brk = 3, live = {0, 1, 2}\<rparr>,
             Some (0, [attribute (1, ''CN'') (2, ''Hello''), sentinel]))"
    by (simp add: heap0_def eval_nat_numeral insert_commute)
  with a b show ?thesis by (simp add: list_all_iff)
qed

text \<open>
  C9. \<open>parse_dn\<close> of the empty string returns the array, which holds the closing cell
  only; the array is the one block allocated.
\<close>

theorem parse_dn_empty_string:
  "parse_dn h (NUL # junk) = Inr (snd (mutt_mem_malloc h), Some (brk h, [sentinel]))
   \<and> parse_dn heap0 [NUL] = Inr (\<lparr>brk = 1, live = {0}\<rparr>, Some (0, [sentinel]))"
  by (simp add: parse_dn_def mutt_mem_malloc_def heap0_def parse_dn_loop.simps)

lemma char_of_4_65: "char_of (4 :: nat) = CHR 0x04" "char_of (65 :: nat) = CHR 0x41"
  by code_simp+

lemma scan_hex_4d41: "scan_hex [CHR ''4'', d, CHR ''4'', CHR ''1'', NUL] = Inr [NUL]"
  by (simp add: isxdigit_def)

lemma sscanf_4d: "\<not> isxdigit d \<Longrightarrow> sscanf_2hhx (CHR ''4'' # d # s) = Some (CHR 0x04)"
  by (simp add: sscanf_2hhx_def c_str_def isxdigit_def isspace_def hexval_def char_of_4_65)

lemma sscanf_41: "sscanf_2hhx (CHR ''4'' # CHR ''1'' # s) = Some (CHR 0x41)"
  by (simp add: sscanf_2hhx_def c_str_def isxdigit_def isspace_def hexval_def char_of_4_65)

lemma decode_hex_4d41:
  "\<not> isxdigit d \<Longrightarrow>
   decode_hex (Suc (Suc 0)) [CHR ''4'', d, CHR ''4'', CHR ''1'', NUL] = Inr [CHR 0x04, CHR 0x41]"
  by (simp add: sscanf_4d sscanf_41)

lemma parse_hexstring_4d41:
  assumes "\<not> isxdigit d"
  shows "parse_hexstring h a [CHR ''4'', d, CHR ''4'', CHR ''1'', NUL] =
     Inr (snd (mutt_mem_malloc h), a\<lparr>val := Some (brk h, [CHR 0x04, CHR 0x41])\<rparr>, Some [NUL])"
  by (simp add: parse_hexstring_def scan_hex_4d41 decode_hex_4d41 [OF assms] mutt_mem_malloc_def
      del: scan_hex.simps decode_hex.simps)

text \<open>
  C10. The hexstring loop tests every second character only, so a character that is no
  hexadecimal digit is accepted at an odd position of the run: for every such character
  \<open>d\<close>, \<open>parse_dn\<close> of \<open>CN=#4d41\<close> returns the array, and the value is the two bytes
  0x04 0x41, since \<open>sscanf\<close> stops at \<open>d\<close>. \<open>parse_dn\<close> of \<open>CN=#4z41\<close> is the case
  \<open>d = z\<close>.
\<close>

theorem parse_dn_hexstring_odd_positions:
  assumes "\<not> isxdigit d"
  shows "parse_dn heap0 (''CN=#4'' @ [d] @ ''41'' @ [NUL]) =
     Inr (\<lparr>brk = 3, live = {0, 1, 2}\<rparr>,
       Some (0, [attribute (1, ''CN'') (2, [CHR 0x04, CHR 0x41]), sentinel]))"
proof -
  let ?h1 = "snd (mutt_mem_malloc heap0)"
  let ?str = "''CN=#4'' @ [d] @ ''41'' @ [NUL]"
  have sk: "skip_spaces ?str = Inr (CHR ''C'' # (''N=#4'' @ [d] @ ''41'' @ [NUL]))"
    by simp
  have c0: "CHR ''C'' \<noteq> NUL"
    by simp
  have g: "grow ?h1 0 7 (length ([] :: DnArray list)) = (?h1, 0, 7)"
    by (simp add: grow_def)
  have part: "parse_dn_part ?h1 sentinel (CHR ''C'' # (''N=#4'' @ [d] @ ''41'' @ [NUL])) =
      Inr (snd (mutt_mem_malloc (snd (mutt_mem_malloc ?h1))),
           sentinel\<lparr>key := Some (1, ''CN''), val := Some (2, [CHR 0x04, CHR 0x41])\<rparr>, Some [NUL])"
    using parse_hexstring_4d41 [OF assms]
    by (simp add: parse_dn_part_def mutt_mem_malloc_def heap0_def)
  from parse_dn_loop_continue [OF sk c0 g part, of NUL "[]"] show ?thesis
    by (simp add: parse_dn_def parse_dn_loop_finished mutt_mem_malloc_def heap0_def sentinel_def
        attribute_def insert_commute eval_nat_numeral)
qed

theorem parse_dn_hexstring_odd_positions_witness:
  "\<not> isxdigit CHR ''z'' \<and> parse_dn heap0 (''CN=#4z41'' @ [NUL]) =
     Inr (\<lparr>brk = 3, live = {0, 1, 2}\<rparr>,
       Some (0, [attribute (1, ''CN'') (2, [CHR 0x04, CHR 0x41]), sentinel]))"
proof -
  have z: "\<not> isxdigit CHR ''z''"
    by (simp add: isxdigit_def)
  from parse_dn_hexstring_odd_positions [OF z] z show ?thesis
    by simp
qed

subsection \<open>All or nothing\<close>























subsection \<open>Parsing what was printed\<close>

lemma scan_type_to_NUL:
  "CHR ''='' \<notin> set s \<Longrightarrow> NUL \<notin> set s \<Longrightarrow> scan_type (s @ NUL # t) = Inr (NUL # t)"
  by (induction s) auto

lemma skip_spaces_nonblank:
  "\<exists>c\<in>set out. c \<noteq> CHR '' '' \<Longrightarrow>
   \<exists>c s. skip_spaces (out @ t) = Inr (c # s @ t) \<and> c \<noteq> CHR '' '' \<and> set (c # s) \<subseteq> set out"
proof (induction out)
  case Nil
  then show ?case by simp
next
  case (Cons a out)
  show ?case
  proof (cases "a = CHR '' ''")
    case True
    with Cons.prems have "\<exists>c\<in>set out. c \<noteq> CHR '' ''" by simp
    from Cons.IH [OF this] obtain c s where
      "skip_spaces (out @ t) = Inr (c # s @ t)" "c \<noteq> CHR '' ''" "set (c # s) \<subseteq> set out"
      by blast
    with True show ?thesis by auto
  next
    case False
    then have "skip_spaces ((a # out) @ t) = Inr (a # out @ t)" by simp
    with False show ?thesis by blast
  qed
qed

lemma parse_dn_part_no_equals:
  assumes "CHR ''='' \<notin> set s" "NUL \<notin> set s" 
  shows "parse_dn_part h a (c # s @ NUL # t) = Inr (h, a, None)"
  using assms by (simp add: parse_dn_part_def scan_type_to_NUL)

text \<open>
  C8, as amended. The printer writes the values and never a key with \<open>=\<close>. For every
  array printed to an empty stream, when no value is printed with \<open>=\<close> or a zero byte
  in it and the text printed has a character that is not a space, \<open>parse_dn\<close> of that
  text returns NULL and frees the array it allocated: there is nothing to print again.
  The attribute C=DE is printed as \<open>DE\<close>, which \<open>parse_dn\<close> rejects.
\<close>

theorem parse_dn_printed_fails:
  assumes "print_dn_parts conv [] dn = Inr out"
    and "\<forall>s\<in>set (printed_values conv dn). CHR ''='' \<notin> set s \<and> NUL \<notin> set s"
    and "\<exists>c\<in>set out. c \<noteq> CHR '' ''"
  shows "parse_dn h (out @ [NUL]) = Inr (h\<lparr>brk := Suc (brk h), live := live h - {brk h}\<rparr>, None)"
proof -
  have "set out \<subseteq> - {CHR ''='', NUL}"
    by (rule print_dn_parts_chars [OF assms(1)]) (use assms(2) in auto)
  then have out: "CHR ''='' \<notin> set out" "NUL \<notin> set out"
    by auto
  from skip_spaces_nonblank [OF assms(3), of "[NUL]"] obtain c s where
    sk: "skip_spaces (out @ [NUL]) = Inr (c # s @ [NUL])" and c: "c \<noteq> CHR '' ''"
    and sub: "set (c # s) \<subseteq> set out"
    by blast
  from out sub have s: "CHR ''='' \<notin> set s" "NUL \<notin> set s" and c0: "c \<noteq> NUL"
    by auto
  let ?h = "snd (mutt_mem_malloc h)"
  have part: "parse_dn_part ?h sentinel (c # s @ [NUL]) = Inr (?h, sentinel, None)"
    by (rule parse_dn_part_no_equals [OF s])
  have g: "grow ?h (brk h) 7 (length ([] :: DnArray list)) = (?h, brk h, 7)"
    by (simp add: grow_def)
  from parse_dn_loop_part_null [OF sk c0 g part] show ?thesis
    by (simp add: parse_dn_def mutt_mem_malloc_def failure_def sentinel_def FREE_def mem_free_def)
qed

lemma rendered_DE:
  "print_dn_parts (\<lambda>s. s) [] [attribute (1, ''C'') (2, ''DE''), sentinel] = Inr ''DE''"
  by (simp add: print_defs)

lemma printed_values_DE:
  "printed_values (\<lambda>s. s) [attribute (1, ''C'') (2, ''DE''), sentinel] = [''DE'']"
  by (simp add: printed_values_def attribute_def sentinel_def printed_def strlen_def c_str_def)

theorem parse_dn_printed_fails_witness:
  "print_dn_parts (\<lambda>s. s) [] [attribute (1, ''C'') (2, ''DE''), sentinel] = Inr ''DE''
   \<and> printed_values (\<lambda>s. s) [attribute (1, ''C'') (2, ''DE''), sentinel] = [''DE'']
   \<and> (\<exists>c\<in>set ''DE''. c \<noteq> CHR '' '')
   \<and> parse_dn heap0 (''DE'' @ [NUL]) = Inr (\<lparr>brk = 1, live = {}\<rparr>, None)"
proof -
  have a: "\<forall>s\<in>set (printed_values (\<lambda>s. s) [attribute (1, ''C'') (2, ''DE''), sentinel]).
      CHR ''='' \<notin> set s \<and> NUL \<notin> set s"
    unfolding printed_values_DE by simp
  have b: "\<exists>c\<in>set ''DE''. c \<noteq> CHR '' ''"
    by simp
  from parse_dn_printed_fails [OF rendered_DE a b, of heap0]
  have "parse_dn heap0 (''DE'' @ [NUL]) = Inr (\<lparr>brk = 1, live = {}\<rparr>, None)"
    by (simp add: heap0_def)
  with rendered_DE printed_values_DE b show ?thesis by blast
qed

text \<open>
  C8, as specified: parsing the text printed for an array with different keys out of
  \<open>stdpart\<close> and printing the result gives the same text. For the attribute C=DE
  the text is \<open>DE\<close> and \<open>parse_dn\<close> of it returns NULL.
\<close>

theorem print_parse_round_trip_counterexample:
  "print_dn_parts (\<lambda>s. s) [] [attribute (1, ''C'') (2, ''DE''), sentinel] = Inr ''DE''
   \<and> parse_dn heap0 (''DE'' @ [NUL]) = Inr (\<lparr>brk = 1, live = {}\<rparr>, None)"
proof
  show "print_dn_parts (\<lambda>s. s) [] [attribute (1, ''C'') (2, ''DE''), sentinel] = Inr ''DE''"
    by (simp add: print_defs)
  show "parse_dn heap0 (''DE'' @ [NUL]) = Inr (\<lparr>brk = 1, live = {}\<rparr>, None)"
    by code_simp
qed

end
